theory Spec2Isabelle
  imports Main "HOL-Library.Sublist" "HOL-Library.List_Lexorder"
begin

section \<open>The route-summarising trie of pkg/routesum/rstrie\<close>

subsection \<open>Data model\<close>

text \<open>
  A \<open>bitslice.BitSlice\<close> is a byte slice whose elements are the binary digits 0 and 1;
  the element type is \<open>bool\<close> (\<open>False\<close> is 0, \<open>True\<close> is 1), so an element can
  index the two child slots the way the Go code does.
\<close>

type_synonym BitSlice = "bool list"

text \<open>
  A value of type \<open>node\<close> stands for a Go \<open>*node\<close>:
  \<^item> \<open>NilNode\<close> is the nil pointer;
  \<^item> \<open>Leaf b\<close> is \<open>&node{bits: b, children: nil}\<close>;
  \<^item> \<open>Inner b c0 c1\<close> is \<open>&node{bits: b, children: &[2]*node{c0, c1}}\<close>, where each of
    the two slots may itself hold the nil pointer.
  Ownership is tree shaped, so a pointer is represented by the subtree it points to.
\<close>

datatype node = NilNode | Leaf BitSlice | Inner BitSlice node node

datatype RSTrie = RSTrie (root: node)

text \<open>Run-time panics of the Go code are values.\<close>

datatype panic = NilDereference | IndexOutOfRange | SliceBoundsOutOfRange

text \<open>The field \<open>n.bits\<close>; every use below is guarded against the nil pointer.\<close>

fun bits :: "node \<Rightarrow> BitSlice" where
  "bits NilNode = []"
| "bits (Leaf b) = b"
| "bits (Inner b c0 c1) = b"

definition NewRSTrie :: RSTrie where
  "NewRSTrie = RSTrie NilNode"

subsection \<open>Helpers of the trie\<close>

text \<open>The function \<open>min\<close> of the source, on lengths.\<close>

definition min_int :: "nat \<Rightarrow> nat \<Rightarrow> nat" where
  "min_int a b = (if a < b then a else b)"

text \<open>The counting loop of \<open>commonPrefixLen\<close>, started at \<open>i = 0\<close>.\<close>

function commonPrefixLoop :: "BitSlice \<Rightarrow> BitSlice \<Rightarrow> nat \<Rightarrow> nat" where
  "commonPrefixLoop a b i =
     (if i < min_int (length a) (length b)
      then (if a ! i \<noteq> b ! i then i else commonPrefixLoop a b (i + 1))
      else i)"
  by pat_completeness auto
termination
  by (relation "measure (\<lambda>(a, b, i). min_int (length a) (length b) - i)") auto

definition commonPrefixLen :: "BitSlice \<Rightarrow> BitSlice \<Rightarrow> nat" where
  "commonPrefixLen a b = commonPrefixLoop a b 0"

text \<open>\<open>bytes.HasPrefix s p\<close> of the Go standard library.\<close>

definition HasPrefix :: "BitSlice \<Rightarrow> BitSlice \<Rightarrow> bool" where
  "HasPrefix s p = (length p \<le> length s \<and> take (length p) s = p)"

fun isLeaf :: "node \<Rightarrow> panic + bool" where
  "isLeaf NilNode = Inl NilDereference"
| "isLeaf (Leaf b) = Inr True"
| "isLeaf (Inner b c0 c1) = Inr False"

text \<open>
  \<open>childrenAreCompleteSubtrie\<close>: the two \<open>||\<close> are short-circuit, so the second child is
  only looked at when the first one is a leaf.
\<close>

fun childrenAreCompleteSubtrie :: "node \<Rightarrow> panic + bool" where
  "childrenAreCompleteSubtrie NilNode = Inl NilDereference"
| "childrenAreCompleteSubtrie (Leaf b) = Inr False"
| "childrenAreCompleteSubtrie (Inner b c0 c1) =
     (case isLeaf c0 of
        Inl e \<Rightarrow> Inl e
      | Inr False \<Rightarrow> Inr False
      | Inr True \<Rightarrow>
          (case isLeaf c1 of
             Inl e \<Rightarrow> Inl e
           | Inr False \<Rightarrow> Inr False
           | Inr True \<Rightarrow>
               (if length (bits c0) \<noteq> 1 \<or> length (bits c1) \<noteq> 1 then Inr False
                else Inr True)))"

text \<open>Writing one slot of a \<open>[2]*node\<close> array.\<close>

fun setSlot :: "node \<times> node \<Rightarrow> bool \<Rightarrow> node \<Rightarrow> node \<times> node" where
  "setSlot (c0, c1) i n = (if i then (c0, n) else (n, c1))"

text \<open>The assignment \<open>n.bits = b\<close>.\<close>

fun setBits :: "node \<Rightarrow> BitSlice \<Rightarrow> node" where
  "setBits NilNode b = NilNode"
| "setBits (Leaf _) b = Leaf b"
| "setBits (Inner _ c0 c1) b = Inner b c0 c1"

text \<open>
  \<open>splitNodeForRoute\<close> returns the new node; it also shortens the label of \<open>oldNode\<close> in
  place, so the model returns the updated old node as the second component.
\<close>

definition splitNodeForRoute :: "node \<Rightarrow> BitSlice \<Rightarrow> panic + (node \<times> node)" where
  "splitNodeForRoute oldNode routeBits =
     (if oldNode = NilNode then Inl NilDereference
      else
        let commonBitsLen = commonPrefixLen (bits oldNode) routeBits;
            commonBits = take commonBitsLen (bits oldNode);
            routeNode = Leaf (drop commonBitsLen routeBits);
            oldNode' = setBits oldNode (drop commonBitsLen (bits oldNode))
        in (case bits routeNode of
              [] \<Rightarrow> Inl IndexOutOfRange
            | r # _ \<Rightarrow>
                (case bits oldNode' of
                   [] \<Rightarrow> Inl IndexOutOfRange
                 | k # _ \<Rightarrow>
                     (case setSlot (setSlot (NilNode, NilNode) r routeNode) k oldNode' of
                        (c0, c1) \<Rightarrow> Inr (Inner commonBits c0 c1, oldNode')))))"

subsection \<open>The stack of visited nodes\<close>

text \<open>
  \<open>visited\<close> holds the internal nodes the descent went through. An entry
  \<open>Visited b i other\<close> is such a node with label \<open>b\<close>: the descent continued in its child
  slot \<open>i\<close>, and \<open>other\<close> is the content of its other slot. The content of slot \<open>i\<close>
  is the next entry of the stack or, for the last one, the current node. The list is
  kept with the most recently visited node first.
\<close>

datatype visitedNode = Visited BitSlice bool node

fun fill :: "visitedNode \<Rightarrow> node \<Rightarrow> node" where
  "fill (Visited b i other) n = (if i then Inner b other n else Inner b n other)"

fun rebuild :: "visitedNode list \<Rightarrow> node \<Rightarrow> node" where
  "rebuild [] n = n"
| "rebuild (v # vs) n = rebuild vs (fill v n)"

text \<open>
  \<open>visited[visitedLen-1].children[k] = newNode\<close>, where \<open>cur\<close> is what the slot the
  descent took holds at that moment. The result is the updated entry and the content of
  the slot the descent took.
\<close>

fun storeChild :: "visitedNode \<Rightarrow> bool \<Rightarrow> node \<Rightarrow> node \<Rightarrow> visitedNode \<times> node" where
  "storeChild (Visited b i other) k newNode cur =
     (if k = i then (Visited b i other, newNode) else (Visited b i newNode, cur))"

text \<open>
  \<open>simplifyVisitedSubtries\<close> walks the stack from the most recently visited node and
  clears the children of each node whose children are a complete subtrie. The model
  returns the root of the trie after the pass.
\<close>

fun simplifyVisitedSubtries :: "visitedNode list \<Rightarrow> node \<Rightarrow> panic + node" where
  "simplifyVisitedSubtries [] cur = Inr cur"
| "simplifyVisitedSubtries (v # vs) cur =
     (case isLeaf (fill v cur) of
        Inl e \<Rightarrow> Inl e
      | Inr True \<Rightarrow> Inr (rebuild (v # vs) cur)
      | Inr False \<Rightarrow>
          (case childrenAreCompleteSubtrie (fill v cur) of
             Inl e \<Rightarrow> Inl e
           | Inr False \<Rightarrow> Inr (rebuild (v # vs) cur)
           | Inr True \<Rightarrow> simplifyVisitedSubtries vs (Leaf (bits (fill v cur)))))"

subsection \<open>InsertRoute\<close>

text \<open>
  The end of the loop body of \<open>InsertRoute\<close>: the route diverges from the current node.
  Either the single-bit shortcut shortens the label of the current leaf, or the node is
  split and the new node is stored as the root or in the parent's slot chosen by the
  first bit of the new node's label; then the visited nodes are simplified.
\<close>

definition diverge :: "visitedNode list \<Rightarrow> node \<Rightarrow> BitSlice \<Rightarrow> panic + node" where
  "diverge visited curNode remainingRouteBits =
     (case isLeaf curNode of
        Inl e \<Rightarrow> Inl e
      | Inr leaf \<Rightarrow>
          if leaf \<and> length (bits curNode) = length remainingRouteBits \<and>
             int (commonPrefixLen (bits curNode) remainingRouteBits) = int (length (bits curNode)) - 1
          then simplifyVisitedSubtries visited
                 (Leaf (take (length (bits curNode) - 1) (bits curNode)))
          else
            (case splitNodeForRoute curNode remainingRouteBits of
               Inl e \<Rightarrow> Inl e
             | Inr (newNode, oldNode) \<Rightarrow>
                 (case visited of
                    [] \<Rightarrow> simplifyVisitedSubtries [] newNode
                  | v # vs \<Rightarrow>
                      (case bits newNode of
                         [] \<Rightarrow> Inl IndexOutOfRange
                       | k # _ \<Rightarrow>
                           (case storeChild v k newNode oldNode of
                              (v', cur) \<Rightarrow> simplifyVisitedSubtries (v' # vs) cur)))))"

text \<open>The \<open>for\<close> loop of \<open>InsertRoute\<close>; the result is the root of the trie afterwards.\<close>

fun insertLoop :: "visitedNode list \<Rightarrow> node \<Rightarrow> BitSlice \<Rightarrow> panic + node" where
  "insertLoop visited NilNode remainingRouteBits = Inl NilDereference"
| "insertLoop visited (Leaf b) remainingRouteBits =
     (if length remainingRouteBits \<le> length b \<and> HasPrefix b remainingRouteBits
      then Inr (rebuild visited (Leaf remainingRouteBits))
      else if length b \<le> length remainingRouteBits \<and> HasPrefix remainingRouteBits b
      then Inr (rebuild visited (Leaf b))
      else diverge visited (Leaf b) remainingRouteBits)"
| "insertLoop visited (Inner b c0 c1) remainingRouteBits =
     (if length remainingRouteBits \<le> length b \<and> HasPrefix b remainingRouteBits
      then Inr (rebuild visited (Leaf remainingRouteBits))
      else if length b \<le> length remainingRouteBits \<and> HasPrefix remainingRouteBits b
      then (case drop (length b) remainingRouteBits of
              [] \<Rightarrow> Inl IndexOutOfRange
            | i # rest \<Rightarrow>
                insertLoop (Visited b i (if i then c0 else c1) # visited)
                  (if i then c1 else c0) (i # rest))
      else diverge visited (Inner b c0 c1) remainingRouteBits)"

definition InsertRoute :: "RSTrie \<Rightarrow> BitSlice \<Rightarrow> panic + RSTrie" where
  "InsertRoute t routeBits =
     (if root t = NilNode then Inr (RSTrie (Leaf routeBits))
      else (case insertLoop [] (root t) routeBits of
              Inl e \<Rightarrow> Inl e
            | Inr n \<Rightarrow> Inr (RSTrie n)))"

text \<open>A sequence of calls of \<open>InsertRoute\<close>; a panic ends it.\<close>

fun InsertRoutes :: "RSTrie \<Rightarrow> BitSlice list \<Rightarrow> panic + RSTrie" where
  "InsertRoutes t [] = Inr t"
| "InsertRoutes t (r # rs) =
     (case InsertRoute t r of Inl e \<Rightarrow> Inl e | Inr t' \<Rightarrow> InsertRoutes t' rs)"

subsection \<open>Contents\<close>

text \<open>
  The work list of \<open>Contents\<close> holds traversal steps (a node and the bits preceding it);
  the first step is taken off and the two children of an internal node are put in front.
\<close>

function contentsLoop :: "(node \<times> BitSlice) list \<Rightarrow> BitSlice list \<Rightarrow> panic + BitSlice list" where
  "contentsLoop [] contents = Inr contents"
| "contentsLoop ((NilNode, precedingRouteBits) # queue) contents = Inl NilDereference"
| "contentsLoop ((Leaf b, precedingRouteBits) # queue) contents =
     contentsLoop queue (contents @ [precedingRouteBits @ b])"
| "contentsLoop ((Inner b c0 c1, precedingRouteBits) # queue) contents =
     contentsLoop ((c0, precedingRouteBits @ b) # (c1, precedingRouteBits @ b) # queue) contents"
  by pat_completeness auto
termination
  by (relation "measure (\<lambda>(queue, contents). sum_list (map (\<lambda>(n, p). 2 * size n + 1) queue))") auto

definition Contents :: "RSTrie \<Rightarrow> panic + BitSlice list" where
  "Contents t = (if root t = NilNode then Inr [] else contentsLoop [(root t, [])] [])"

section \<open>Properties of trie states\<close>

text \<open>\<open>startsWith i b\<close>: the label \<open>b\<close> is not empty and its first bit is \<open>i\<close>.\<close>

fun startsWith :: "bool \<Rightarrow> BitSlice \<Rightarrow> bool" where
  "startsWith i [] = False"
| "startsWith i (x # xs) = (x = i)"

text \<open>
  The shape of a subtree: no slot of an internal node holds the nil pointer, and the
  child in slot \<open>i\<close> has a label that starts with the bit \<open>i\<close>.
\<close>

fun wfNode :: "node \<Rightarrow> bool" where
  "wfNode NilNode = False"
| "wfNode (Leaf b) = True"
| "wfNode (Inner b c0 c1) =
     (startsWith False (bits c0) \<and> startsWith True (bits c1) \<and> wfNode c0 \<and> wfNode c1)"

text \<open>The same for the stack of visited nodes and for what may fill its open slot.\<close>

fun fits :: "visitedNode list \<Rightarrow> BitSlice \<Rightarrow> bool" where
  "fits [] b = True"
| "fits (Visited _ i _ # _) b = startsWith i b"

fun wfVisited :: "visitedNode list \<Rightarrow> bool" where
  "wfVisited [] = True"
| "wfVisited (Visited b i other # vs) =
     (startsWith (\<not> i) (bits other) \<and> wfNode other \<and> fits vs b \<and> wfVisited vs)"

text \<open>The keys of the leaves below a node, slot 0 before slot 1.\<close>

fun leafKeys :: "BitSlice \<Rightarrow> node \<Rightarrow> BitSlice list" where
  "leafKeys p NilNode = []"
| "leafKeys p (Leaf b) = [p @ b]"
| "leafKeys p (Inner b c0 c1) = leafKeys (p @ b) c0 @ leafKeys (p @ b) c1"

text \<open>A trie is empty or has a well-shaped root; the label of the root is not constrained.\<close>

definition wfTrie :: "RSTrie \<Rightarrow> bool" where
  "wfTrie t = (root t = NilNode \<or> wfNode (root t))"

text \<open>
  Every node has no child or two children, and the child in slot \<open>i\<close> has a label
  whose first bit is \<open>i\<close>.
\<close>

fun twoChildrenInSlots :: "node \<Rightarrow> bool" where
  "twoChildrenInSlots NilNode = True"
| "twoChildrenInSlots (Leaf b) = True"
| "twoChildrenInSlots (Inner b c0 c1) =
     (c0 \<noteq> NilNode \<and> c1 \<noteq> NilNode \<and>
      startsWith False (bits c0) \<and> startsWith True (bits c1) \<and>
      twoChildrenInSlots c0 \<and> twoChildrenInSlots c1)"

text \<open>The labels of all nodes of a subtree, and those of all its nodes but the topmost.\<close>

fun allLabels :: "node \<Rightarrow> BitSlice list" where
  "allLabels NilNode = []"
| "allLabels (Leaf b) = [b]"
| "allLabels (Inner b c0 c1) = b # allLabels c0 @ allLabels c1"

fun childLabels :: "node \<Rightarrow> BitSlice list" where
  "childLabels NilNode = []"
| "childLabels (Leaf b) = []"
| "childLabels (Inner b c0 c1) = allLabels c0 @ allLabels c1"

text \<open>
  \<open>covers K' K\<close>: every key of \<open>K\<close> has a prefix in \<open>K'\<close>, so the routes \<open>K'\<close> cover
  the routes \<open>K\<close>.
\<close>

definition covers :: "BitSlice set \<Rightarrow> BitSlice set \<Rightarrow> bool" where
  "covers K' K = (\<forall>k \<in> K. \<exists>k' \<in> K'. prefix k' k)"

text \<open>
  For a stack of visited nodes: the bits matched on the way down to the open slot, and
  the keys of the leaves that hang off the path.
\<close>

fun pathBits :: "visitedNode list \<Rightarrow> BitSlice" where
  "pathBits [] = []"
| "pathBits (Visited b i other # vs) = pathBits vs @ b"

fun sideKeys :: "visitedNode list \<Rightarrow> BitSlice set" where
  "sideKeys [] = {}"
| "sideKeys (Visited b i other # vs) = set (leafKeys (pathBits vs @ b) other) \<union> sideKeys vs"

section \<open>Insertion without the single-bit shortcut\<close>

text \<open>
  The loop of \<open>InsertRoute\<close> with the handling of a divergence left open: \<open>D\<close> is called
  where the route diverges from the current node.
\<close>

fun insertLoopWith ::
  "(visitedNode list \<Rightarrow> node \<Rightarrow> BitSlice \<Rightarrow> panic + node) \<Rightarrow>
   visitedNode list \<Rightarrow> node \<Rightarrow> BitSlice \<Rightarrow> panic + node" where
  "insertLoopWith D visited NilNode remainingRouteBits = Inl NilDereference"
| "insertLoopWith D visited (Leaf b) remainingRouteBits =
     (if length remainingRouteBits \<le> length b \<and> HasPrefix b remainingRouteBits
      then Inr (rebuild visited (Leaf remainingRouteBits))
      else if length b \<le> length remainingRouteBits \<and> HasPrefix remainingRouteBits b
      then Inr (rebuild visited (Leaf b))
      else D visited (Leaf b) remainingRouteBits)"
| "insertLoopWith D visited (Inner b c0 c1) remainingRouteBits =
     (if length remainingRouteBits \<le> length b \<and> HasPrefix b remainingRouteBits
      then Inr (rebuild visited (Leaf remainingRouteBits))
      else if length b \<le> length remainingRouteBits \<and> HasPrefix remainingRouteBits b
      then (case drop (length b) remainingRouteBits of
              [] \<Rightarrow> Inl IndexOutOfRange
            | i # rest \<Rightarrow>
                insertLoopWith D (Visited b i (if i then c0 else c1) # visited)
                  (if i then c1 else c0) (i # rest))
      else D visited (Inner b c0 c1) remainingRouteBits)"

definition InsertRouteWith ::
  "(visitedNode list \<Rightarrow> node \<Rightarrow> BitSlice \<Rightarrow> panic + node) \<Rightarrow>
   RSTrie \<Rightarrow> BitSlice \<Rightarrow> panic + RSTrie" where
  "InsertRouteWith D t routeBits =
     (if root t = NilNode then Inr (RSTrie (Leaf routeBits))
      else (case insertLoopWith D [] (root t) routeBits of
              Inl e \<Rightarrow> Inl e
            | Inr n \<Rightarrow> Inr (RSTrie n)))"

text \<open>
  The general formulation in the words of the specification: always split the node with
  \<open>splitNodeForRoute\<close>, store the new node as \<open>InsertRoute\<close> does, and run the upward
  collapse pass over the visited stack.
\<close>

definition splitThenSimplify :: "visitedNode list \<Rightarrow> node \<Rightarrow> BitSlice \<Rightarrow> panic + node" where
  "splitThenSimplify visited curNode remainingRouteBits =
     (case splitNodeForRoute curNode remainingRouteBits of
        Inl e \<Rightarrow> Inl e
      | Inr (newNode, oldNode) \<Rightarrow>
          (case visited of
             [] \<Rightarrow> simplifyVisitedSubtries [] newNode
           | v # vs \<Rightarrow>
               (case bits newNode of
                  [] \<Rightarrow> Inl IndexOutOfRange
                | k # _ \<Rightarrow>
                    (case storeChild v k newNode oldNode of
                       (v', cur) \<Rightarrow> simplifyVisitedSubtries (v' # vs) cur))))"

text \<open>
  A formulation whose collapse pass starts at the node the split has built: when the
  children of the new node are a complete subtrie, the new node becomes a leaf and the
  pass goes on over the visited stack; otherwise the pass ends at once.
\<close>

definition splitThenCollapse :: "visitedNode list \<Rightarrow> node \<Rightarrow> BitSlice \<Rightarrow> panic + node" where
  "splitThenCollapse visited curNode remainingRouteBits =
     (case splitNodeForRoute curNode remainingRouteBits of
        Inl e \<Rightarrow> Inl e
      | Inr (newNode, oldNode) \<Rightarrow>
          (case childrenAreCompleteSubtrie newNode of
             Inl e \<Rightarrow> Inl e
           | Inr complete \<Rightarrow>
               (let newNode' = (if complete then Leaf (bits newNode) else newNode)
                in case visited of
                     [] \<Rightarrow> Inr newNode'
                   | v # vs \<Rightarrow>
                       (case bits newNode of
                          [] \<Rightarrow> Inl IndexOutOfRange
                        | k # _ \<Rightarrow>
                            (case storeChild v k newNode' oldNode of
                               (v', cur) \<Rightarrow>
                                 if complete then simplifyVisitedSubtries (v' # vs) cur
                                 else Inr (rebuild (v' # vs) cur))))))"

section \<open>The facade of package routesum\<close>

text \<open>
  \<open>RouteSum\<close> holds one trie for each address family. \<open>InsertFromString\<close> parses a text
  with package \<open>net/netip\<close> of the Go standard library and turns the address into bits
  with \<open>bitslice.NewFromBytes\<close>. Both lie outside the modelled sources; the functions
  used are the fields of the record \<open>netip\<close>, over any types of addresses \<open>'a\<close>,
  prefixes \<open>'p\<close> and error values \<open>'e\<close>; \<open>Err_Error\<close> is the method \<open>Error()\<close> of these
  error values, their message. A Go byte is a \<open>char\<close>.
\<close>

record RouteSum =
  ipv4 :: RSTrie
  ipv6 :: RSTrie

definition NewRouteSum :: RouteSum where
  "NewRouteSum = \<lparr>ipv4 = NewRSTrie, ipv6 = NewRSTrie\<rparr>"









section \<open>Verification\<close>

subsection \<open>Prefixes and the common prefix length\<close>

declare commonPrefixLoop.simps [simp del]

lemma HasPrefix_iff: "HasPrefix s p = prefix p s"
  by (auto simp: HasPrefix_def prefix_def) (metis append_take_drop_id)

lemma covers_test [simp]: "(length r \<le> length b \<and> HasPrefix b r) = prefix r b"
  by (auto simp: HasPrefix_iff prefix_length_le)

lemma commonPrefixLoop_Cons:
  "commonPrefixLoop (x # xs) (y # ys) (Suc i) = Suc (commonPrefixLoop xs ys i)"
proof (induction xs ys i rule: commonPrefixLoop.induct)
  case (1 a b i)
  show ?case
  proof (cases "i < min_int (length a) (length b)")
    case True
    then have lt: "Suc i < min_int (length (x # a)) (length (y # b))"
      by (simp add: min_int_def split: if_splits)
    show ?thesis
    proof (cases "a ! i \<noteq> b ! i")
      case True
      with lt \<open>i < min_int (length a) (length b)\<close> show ?thesis
        by (subst commonPrefixLoop.simps, subst (2) commonPrefixLoop.simps) simp
    next
      case False
      with lt \<open>i < min_int (length a) (length b)\<close> "1.IH" show ?thesis
        by (subst commonPrefixLoop.simps, subst (2) commonPrefixLoop.simps) simp
    qed
  next
    case False
    then have "\<not> Suc i < min_int (length (x # a)) (length (y # b))"
      by (simp add: min_int_def split: if_splits)
    with False show ?thesis
      by (subst commonPrefixLoop.simps, subst (2) commonPrefixLoop.simps) simp
  qed
qed

lemma commonPrefixLen_Nil [simp]:
  "commonPrefixLen [] b = 0" "commonPrefixLen a [] = 0"
  by (simp_all add: commonPrefixLen_def commonPrefixLoop.simps min_int_def)

lemma commonPrefixLen_Cons [simp]:
  "commonPrefixLen (x # xs) (y # ys) = (if x = y then Suc (commonPrefixLen xs ys) else 0)"
  unfolding commonPrefixLen_def
  by (subst commonPrefixLoop.simps) (simp add: min_int_def commonPrefixLoop_Cons)

lemma commonPrefixLen_le: "commonPrefixLen a b \<le> length a" "commonPrefixLen a b \<le> length b"
  by (induction a arbitrary: b; case_tac b; simp)+

lemma commonPrefixLen_take: "take (commonPrefixLen a b) a = take (commonPrefixLen a b) b"
  by (induction a arbitrary: b; case_tac b; simp)

lemma commonPrefixLen_diverge:
  "\<not> prefix a b \<Longrightarrow> \<not> prefix b a \<Longrightarrow>
   \<exists>x as bs. drop (commonPrefixLen a b) a = x # as \<and> drop (commonPrefixLen a b) b = (\<not> x) # bs"
proof (induction a arbitrary: b)
  case Nil
  then show ?case by simp
next
  case (Cons x a)
  then show ?case by (cases b) auto
qed

subsection \<open>The shape of the trie is kept\<close>

lemma startsWith_iff: "startsWith i b \<longleftrightarrow> (\<exists>bs. b = i # bs)"
  by (cases b) auto

lemma startsWith_common:
  "startsWith i a \<Longrightarrow> startsWith i b \<Longrightarrow> startsWith i (take (commonPrefixLen a b) a)"
  by (cases a; cases b) auto

lemma bits_setBits [simp]: "n \<noteq> NilNode \<Longrightarrow> bits (setBits n b) = b"
  by (cases n) auto

lemma wfNode_setBits [simp]: "wfNode (setBits n b) = wfNode n"
  by (cases n) auto

lemma wfNode_not_Nil: "wfNode n \<Longrightarrow> n \<noteq> NilNode"
  by auto

lemma fill_wf:
  "wfVisited (v # vs) \<Longrightarrow> wfNode n \<Longrightarrow> fits (v # vs) (bits n) \<Longrightarrow>
   wfNode (fill v n) \<and> fits vs (bits (fill v n))"
  by (cases v) auto

lemma wfVisited_tl: "wfVisited (v # vs) \<Longrightarrow> wfVisited vs"
  by (cases v) auto

lemma rebuild_wf:
  "wfVisited vs \<Longrightarrow> wfNode n \<Longrightarrow> fits vs (bits n) \<Longrightarrow> wfNode (rebuild vs n)"
proof (induction vs arbitrary: n)
  case Nil
  then show ?case by simp
next
  case (Cons v vs)
  from fill_wf [OF Cons.prems] wfVisited_tl [OF Cons.prems(1)] show ?case
    by (simp add: Cons.IH)
qed

lemma complete_total:
  "wfNode n \<Longrightarrow> \<exists>c. childrenAreCompleteSubtrie n = Inr c"
proof (cases n)
  case (Inner b c0 c1)
  assume "wfNode n"
  with Inner show ?thesis by (cases c0; cases c1) auto
qed auto

lemma isLeaf_fill [simp]: "isLeaf (fill v n) = Inr False"
  by (cases v) auto

lemma simplify_wf:
  "wfVisited vs \<Longrightarrow> wfNode n \<Longrightarrow> fits vs (bits n) \<Longrightarrow>
   \<exists>m. simplifyVisitedSubtries vs n = Inr m \<and> wfNode m"
proof (induction vs arbitrary: n)
  case Nil
  then show ?case by simp
next
  case (Cons v vs)
  note f = fill_wf [OF Cons.prems]
  note t = wfVisited_tl [OF Cons.prems(1)]
  from f obtain c where c: "childrenAreCompleteSubtrie (fill v n) = Inr c"
    using complete_total by blast
  show ?case
  proof (cases c)
    case True
    have "\<exists>m. simplifyVisitedSubtries vs (Leaf (bits (fill v n))) = Inr m \<and> wfNode m"
      using t f by (intro Cons.IH) auto
    with c True show ?thesis by simp
  next
    case False
    with c rebuild_wf [OF t] f show ?thesis by simp
  qed
qed

lemma split_diverge:
  assumes "\<not> prefix r (bits n)" "\<not> prefix (bits n) r" "n \<noteq> NilNode"
  defines "c \<equiv> commonPrefixLen (bits n) r"
  shows "\<exists>x as bs. drop c (bits n) = x # as \<and> drop c r = (\<not> x) # bs \<and>
           splitNodeForRoute n r =
             Inr (if x then Inner (take c (bits n)) (Leaf (drop c r)) (setBits n (drop c (bits n)))
                  else Inner (take c (bits n)) (setBits n (drop c (bits n))) (Leaf (drop c r)),
                  setBits n (drop c (bits n)))"
proof -
  from commonPrefixLen_diverge [OF assms(2) assms(1)]
  obtain x as bs where d: "drop c (bits n) = x # as" "drop c r = (\<not> x) # bs"
    unfolding c_def by blast
  with assms(3) have "splitNodeForRoute n r =
             Inr (if x then Inner (take c (bits n)) (Leaf (drop c r)) (setBits n (drop c (bits n)))
                  else Inner (take c (bits n)) (setBits n (drop c (bits n))) (Leaf (drop c r)),
                  setBits n (drop c (bits n)))"
    by (simp add: splitNodeForRoute_def c_def [symmetric] Let_def)
  with d show ?thesis by blast
qed

subsection \<open>Coverage, and what a divergence does\<close>

lemma covers_refl: "covers K K"
  by (auto simp: covers_def)

lemma covers_trans: "covers A B \<Longrightarrow> covers B C \<Longrightarrow> covers A C"
  unfolding covers_def by (meson prefix_order.trans)

lemma covers_Un: "covers A B \<Longrightarrow> covers (A \<union> S) (B \<union> S)"
  unfolding covers_def by blast

lemma covers_insert_Un: "covers A (insert q B) \<Longrightarrow> covers (A \<union> S) (insert q (B \<union> S))"
  unfolding covers_def by blast

lemma covers_weaken: "covers A (insert q B) \<Longrightarrow> covers A B"
  unfolding covers_def by blast

lemma leafKeys_prefix0: "k \<in> set (leafKeys p n) \<Longrightarrow> prefix p k"
proof (induction n arbitrary: p)
  case (Inner b c0 c1)
  then have "prefix (p @ b) k" by auto
  then show ?case by (auto simp: prefix_def)
qed auto

lemma leafKeys_prefix_bits: "k \<in> set (leafKeys p n) \<Longrightarrow> prefix (p @ bits n) k"
  by (cases n) (auto dest: leafKeys_prefix0)

lemma keys_rebuild:
  "set (leafKeys [] (rebuild vs n)) = set (leafKeys (pathBits vs) n) \<union> sideKeys vs"
proof (induction vs arbitrary: n)
  case Nil
  then show ?case by simp
next
  case (Cons v vs)
  obtain b i other where v: "v = Visited b i other" by (cases v)
  show ?case unfolding v by (auto simp: Cons.IH)
qed

lemma covers_rebuild:
  "covers (set (leafKeys (pathBits vs) X)) (set (leafKeys (pathBits vs) n)) \<Longrightarrow>
   covers (set (leafKeys [] (rebuild vs X))) (set (leafKeys [] (rebuild vs n)))"
  unfolding keys_rebuild by (rule covers_Un)

lemma covers_rebuild_insert:
  "covers (set (leafKeys (pathBits vs) X)) (insert q (set (leafKeys (pathBits vs) n))) \<Longrightarrow>
   covers (set (leafKeys [] (rebuild vs X))) (insert q (set (leafKeys [] (rebuild vs n))))"
  unfolding keys_rebuild by (rule covers_insert_Un)

lemma covers_Leaf:
  "prefix b (bits n) \<Longrightarrow> covers (set (leafKeys p (Leaf b))) (set (leafKeys p n))"
proof -
  assume b: "prefix b (bits n)"
  have "prefix (p @ b) k" if "k \<in> set (leafKeys p n)" for k
  proof -
    from that have "prefix (p @ bits n) k" by (rule leafKeys_prefix_bits)
    moreover from b have "prefix (p @ b) (p @ bits n)" by simp
    ultimately show ?thesis by (rule prefix_order.trans [rotated])
  qed
  then show ?thesis by (simp add: covers_def)
qed

lemma simplify_covers:
  "simplifyVisitedSubtries vs n = Inr m \<Longrightarrow>
   covers (set (leafKeys [] m)) (set (leafKeys [] (rebuild vs n)))"
proof (induction vs arbitrary: n)
  case Nil
  then show ?case by (simp add: covers_refl)
next
  case (Cons v vs)
  show ?case
  proof (cases "childrenAreCompleteSubtrie (fill v n)")
    case (Inl e)
    with Cons.prems show ?thesis by simp
  next
    case (Inr c)
    show ?thesis
    proof (cases c)
      case True
      with Inr Cons.prems
      have "simplifyVisitedSubtries vs (Leaf (bits (fill v n))) = Inr m" by simp
      then have "covers (set (leafKeys [] m))
                   (set (leafKeys [] (rebuild vs (Leaf (bits (fill v n))))))"
        by (rule Cons.IH)
      moreover have "covers (set (leafKeys [] (rebuild vs (Leaf (bits (fill v n))))))
                       (set (leafKeys [] (rebuild vs (fill v n))))"
        by (intro covers_rebuild covers_Leaf) simp
      ultimately show ?thesis using covers_trans by auto
    next
      case False
      with Inr Cons.prems show ?thesis by (auto simp: covers_refl)
    qed
  qed
qed

lemma leafKeys_setBits:
  "n \<noteq> NilNode \<Longrightarrow> leafKeys (p @ take c (bits n)) (setBits n (drop c (bits n))) = leafKeys p n"
  by (cases n) auto

lemma diverge_shape:
  assumes "wfVisited vs" "wfNode cur" "fits vs (bits cur)" "fits vs r"
    and "\<not> prefix r (bits cur)" "\<not> prefix (bits cur) r"
  shows "\<exists>X. diverge vs cur r = simplifyVisitedSubtries vs X \<and> wfNode X \<and> fits vs (bits X) \<and>
             (\<forall>p. covers (set (leafKeys p X)) (insert (p @ r) (set (leafKeys p cur))))"
proof -
  define c where "c = commonPrefixLen (bits cur) r"
  from assms(2) have nn: "cur \<noteq> NilNode" by auto
  then obtain leaf where leaf: "isLeaf cur = Inr leaf" by (cases cur) auto
  have fitc: "fits vs (take c (bits cur))"
  proof (cases vs)
    case Nil
    then show ?thesis by simp
  next
    case (Cons v vs')
    obtain b i other where v: "v = Visited b i other" by (cases v)
    from assms(3,4) Cons v have "startsWith i (take c (bits cur))"
      unfolding c_def by (intro startsWith_common) auto
    then show ?thesis using Cons v by simp
  qed
  have tk: "take c (bits cur) = take c r"
    unfolding c_def by (rule commonPrefixLen_take)
  show ?thesis
  proof (cases "leaf \<and> length (bits cur) = length r \<and> int c = int (length (bits cur)) - 1")
    case True
    then have c: "c = length (bits cur) - 1" by linarith
    define X where "X = Leaf (take c (bits cur))"
    have "diverge vs cur r = simplifyVisitedSubtries vs X"
      using True leaf by (simp add: diverge_def c_def [symmetric] X_def c)
    moreover have "wfNode X" "fits vs (bits X)" using fitc by (simp_all add: X_def)
    moreover have "covers (set (leafKeys p X)) (insert (p @ r) (set (leafKeys p cur)))" for p
    proof -
      have "covers (set (leafKeys p X)) (set (leafKeys p cur))"
        unfolding X_def by (intro covers_Leaf) (simp add: take_is_prefix)
      moreover have "prefix (p @ take c (bits cur)) (p @ r)"
        unfolding tk by (simp add: take_is_prefix)
      ultimately show ?thesis by (auto simp: covers_def X_def)
    qed
    ultimately show ?thesis by blast
  next
    case False
    from split_diverge [OF assms(5,6) nn]
    obtain x as bs where d: "drop c (bits cur) = x # as" "drop c r = (\<not> x) # bs"
      and s: "splitNodeForRoute cur r =
             Inr (if x then Inner (take c (bits cur)) (Leaf (drop c r)) (setBits cur (drop c (bits cur)))
                  else Inner (take c (bits cur)) (setBits cur (drop c (bits cur))) (Leaf (drop c r)),
                  setBits cur (drop c (bits cur)))"
      unfolding c_def by blast
    define X where "X = (if x then Inner (take c (bits cur)) (Leaf (drop c r)) (setBits cur (drop c (bits cur)))
                  else Inner (take c (bits cur)) (setBits cur (drop c (bits cur))) (Leaf (drop c r)))"
    have wfX: "wfNode X" using d assms(2) nn by (auto simp: X_def)
    have bX: "bits X = take c (bits cur)" by (simp add: X_def)
    have dv: "diverge vs cur r = simplifyVisitedSubtries vs X"
    proof (cases vs)
      case Nil
      with False leaf s show ?thesis
        by (auto simp add: diverge_def c_def [symmetric] X_def [symmetric])
    next
      case (Cons v vs')
      obtain b i other where v: "v = Visited b i other" by (cases v)
      from fitc Cons v obtain rest where rest: "take c (bits cur) = i # rest"
        by (auto simp: startsWith_iff)
      show ?thesis
        using False leaf s rest Cons v bX
        by (auto simp add: diverge_def c_def [symmetric] X_def [symmetric]
            simp del: simplifyVisitedSubtries.simps)
    qed
    have "set (leafKeys p X) = insert (p @ r) (set (leafKeys p cur))" for p
    proof -
      have "p @ take c (bits cur) @ drop c r = p @ r"
        unfolding tk by simp
      moreover have "leafKeys (p @ take c (bits cur)) (setBits cur (drop c (bits cur))) = leafKeys p cur"
        using nn by (rule leafKeys_setBits)
      ultimately show ?thesis by (auto simp: X_def)
    qed
    then have "covers (set (leafKeys p X)) (insert (p @ r) (set (leafKeys p cur)))" for p
      by (simp add: covers_refl)
    with dv wfX fitc bX show ?thesis by auto
  qed
qed

lemma diverge_wf:
  assumes "wfVisited vs" "wfNode cur" "fits vs (bits cur)" "fits vs r"
    and "\<not> prefix r (bits cur)" "\<not> prefix (bits cur) r"
  shows "\<exists>m. diverge vs cur r = Inr m \<and> wfNode m"
proof -
  from diverge_shape [OF assms] obtain X
    where X: "diverge vs cur r = simplifyVisitedSubtries vs X" "wfNode X" "fits vs (bits X)"
    by blast
  from simplify_wf [OF assms(1) X(2,3)] X(1) show ?thesis by simp
qed

subsection \<open>Insertion keeps the shape and never panics\<close>

lemma insertLoop_wf:
  "wfVisited vs \<Longrightarrow> wfNode cur \<Longrightarrow> fits vs (bits cur) \<Longrightarrow> fits vs r \<Longrightarrow>
   \<exists>m. insertLoop vs cur r = Inr m \<and> wfNode m"
proof (induction vs cur r rule: insertLoop.induct)
  case (1 visited r)
  then show ?case by simp
next
  case (2 visited b r)
  show ?case
  proof (cases "prefix r b")
    case True
    with rebuild_wf [OF "2.prems"(1), of "Leaf r"] "2.prems" show ?thesis by simp
  next
    case nc: False
    show ?thesis
    proof (cases "prefix b r")
      case True
      with nc rebuild_wf [OF "2.prems"(1), of "Leaf b"] "2.prems" show ?thesis by simp
    next
      case False
      with nc diverge_wf [OF "2.prems"(1,2,3,4)] show ?thesis by simp
    qed
  qed
next
  case (3 visited b c0 c1 r)
  show ?case
  proof (cases "prefix r b")
    case True
    with rebuild_wf [OF "3.prems"(1), of "Leaf r"] "3.prems" show ?thesis by simp
  next
    case nc: False
    show ?thesis
    proof (cases "prefix b r")
      case True
      then obtain r' where r: "r = b @ r'" by (auto simp: prefix_def)
      with nc obtain i rest where r': "r' = i # rest" by (cases r') auto
      have d: "drop (length b) r = i # rest" using r r' by simp
      have "\<exists>m. insertLoop (Visited b i (if i then c0 else c1) # visited)
                  (if i then c1 else c0) (i # rest) = Inr m \<and> wfNode m"
        using nc True d "3.prems" by (intro "3.IH") auto
      with nc True d show ?thesis by simp
    next
      case False
      with nc diverge_wf [OF "3.prems"(1,2,3,4)] show ?thesis by simp
    qed
  qed
qed

lemma InsertRoute_wf: "wfTrie t \<Longrightarrow> \<exists>t'. InsertRoute t r = Inr t' \<and> wfTrie t' \<and> root t' \<noteq> NilNode"
proof (cases "root t = NilNode")
  case True
  then show ?thesis by (simp add: InsertRoute_def wfTrie_def)
next
  case False
  assume "wfTrie t"
  with False have "wfNode (root t)" by (simp add: wfTrie_def)
  then have "\<exists>m. insertLoop [] (root t) r = Inr m \<and> wfNode m"
    by (intro insertLoop_wf) auto
  with False show ?thesis by (auto simp: InsertRoute_def wfTrie_def)
qed

lemma InsertRoutes_wf: "wfTrie t \<Longrightarrow> \<exists>t'. InsertRoutes t rs = Inr t' \<and> wfTrie t'"
proof (induction rs arbitrary: t)
  case Nil
  then show ?case by simp
next
  case (Cons r rs)
  from InsertRoute_wf [OF Cons.prems, of r] obtain t1
    where "InsertRoute t r = Inr t1" "wfTrie t1" by blast
  with Cons.IH [of t1] show ?case by simp
qed

lemma reachable_wf: "\<exists>t. InsertRoutes NewRSTrie rs = Inr t \<and> wfTrie t"
  by (intro InsertRoutes_wf) (simp add: wfTrie_def NewRSTrie_def)

lemma wfNode_twoChildrenInSlots: "wfNode n \<Longrightarrow> twoChildrenInSlots n"
  by (induction n) auto

lemma wfTrie_twoChildrenInSlots: "wfTrie t \<Longrightarrow> twoChildrenInSlots (root t)"
  by (auto simp: wfTrie_def wfNode_twoChildrenInSlots)


subsection \<open>The keys of a well-shaped trie\<close>

lemma contentsLoop_keys:
  "\<forall>(n, p) \<in> set queue. wfNode n \<Longrightarrow>
   contentsLoop queue contents = Inr (contents @ concat (map (\<lambda>(n, p). leafKeys p n) queue))"
  by (induction queue contents rule: contentsLoop.induct) auto

lemma Contents_keys: "wfTrie t \<Longrightarrow> Contents t = Inr (leafKeys [] (root t))"
  using contentsLoop_keys [of "[(root t, [])]" "[]"]
  by (auto simp: Contents_def wfTrie_def)

lemma leafKeys_prefix:
  "wfNode n \<Longrightarrow> k \<in> set (leafKeys p n) \<Longrightarrow> prefix (p @ bits n) k"
proof (induction n arbitrary: p)
  case (Inner b c0 c1)
  from Inner.prems have "k \<in> set (leafKeys (p @ b) c0) \<or> k \<in> set (leafKeys (p @ b) c1)"
    by auto
  with Inner.prems have "prefix ((p @ b) @ bits c0) k \<or> prefix ((p @ b) @ bits c1) k"
    using Inner.IH(1) [of "p @ b"] Inner.IH(2) [of "p @ b"] by auto
  then have "prefix (p @ b) k" by (auto simp: prefix_def)
  then show ?case by simp
qed auto

lemma leafKeys_slot:
  assumes "wfNode n" "startsWith i (bits n)" "k \<in> set (leafKeys p n)"
  shows "\<exists>s. k = p @ i # s"
proof -
  from assms(2) obtain bs where "bits n = i # bs" by (auto simp: startsWith_iff)
  with leafKeys_prefix [OF assms(1,3)] show ?thesis by (auto simp: prefix_def)
qed

lemma less_at_slot: "(p @ False # s :: bool list) < p @ True # s'"
  by (induction p) auto

lemma leafKeys_sorted: "wfNode n \<Longrightarrow> sorted_wrt (<) (leafKeys p n)"
proof (induction n arbitrary: p)
  case (Inner b c0 c1)
  have "x < y" if "x \<in> set (leafKeys (p @ b) c0)" "y \<in> set (leafKeys (p @ b) c1)" for x y
  proof -
    from that Inner.prems obtain s s' where "x = (p @ b) @ False # s" "y = (p @ b) @ True # s'"
      using leafKeys_slot [of c0 False x "p @ b"] leafKeys_slot [of c1 True y "p @ b"] by auto
    then show ?thesis using less_at_slot by blast
  qed
  with Inner show ?case by (auto simp: sorted_wrt_append)
qed auto

lemma leafKeys_distinct: "wfNode n \<Longrightarrow> distinct (leafKeys p n)"
  using leafKeys_sorted [of n p] strict_sorted_iff by blast

lemma leafKeys_prefix_free:
  "wfNode n \<Longrightarrow> k1 \<in> set (leafKeys p n) \<Longrightarrow> k2 \<in> set (leafKeys p n) \<Longrightarrow> prefix k1 k2 \<Longrightarrow>
   k1 = k2"
proof (induction n arbitrary: p)
  case (Inner b c0 c1)
  have cross: False
    if "x \<in> set (leafKeys (p @ b) c0)" "y \<in> set (leafKeys (p @ b) c1)" "prefix x y \<or> prefix y x"
    for x y
  proof -
    from that Inner.prems obtain s s' where "x = (p @ b) @ False # s" "y = (p @ b) @ True # s'"
      using leafKeys_slot [of c0 False x "p @ b"] leafKeys_slot [of c1 True y "p @ b"] by auto
    with that(3) show False by auto
  qed
  from Inner.prems(2,3) consider
      "k1 \<in> set (leafKeys (p @ b) c0)" "k2 \<in> set (leafKeys (p @ b) c0)"
    | "k1 \<in> set (leafKeys (p @ b) c1)" "k2 \<in> set (leafKeys (p @ b) c1)"
    | "k1 \<in> set (leafKeys (p @ b) c0)" "k2 \<in> set (leafKeys (p @ b) c1)"
    | "k1 \<in> set (leafKeys (p @ b) c1)" "k2 \<in> set (leafKeys (p @ b) c0)"
    by auto
  then show ?case
  proof cases
    case 1
    with Inner show ?thesis by auto
  next
    case 2
    with Inner show ?thesis by auto
  next
    case 3
    with cross Inner.prems(4) show ?thesis by blast
  next
    case 4
    with cross Inner.prems(4) show ?thesis by blast
  qed
qed auto

lemma wfNode_childLabels: "wfNode n \<Longrightarrow> [] \<notin> set (childLabels n)"
proof -
  have "wfNode m \<Longrightarrow> bits m \<noteq> [] \<Longrightarrow> [] \<notin> set (allLabels m)" for m
    by (induction m) (auto simp: startsWith_iff)
  then show "wfNode n \<Longrightarrow> [] \<notin> set (childLabels n)"
    by (cases n) (auto simp: startsWith_iff)
qed

subsection \<open>Insertion covers the old keys and the new route\<close>

lemma diverge_covers:
  assumes "wfVisited vs" "wfNode cur" "fits vs (bits cur)" "fits vs r"
    and "\<not> prefix r (bits cur)" "\<not> prefix (bits cur) r"
    and "diverge vs cur r = Inr m"
  shows "covers (set (leafKeys [] m))
           (insert (pathBits vs @ r) (set (leafKeys [] (rebuild vs cur))))"
proof -
  from diverge_shape [OF assms(1-6)] obtain X
    where X: "diverge vs cur r = simplifyVisitedSubtries vs X"
      "covers (set (leafKeys (pathBits vs) X)) (insert (pathBits vs @ r) (set (leafKeys (pathBits vs) cur)))"
    by blast
  from X(1) assms(7) have "covers (set (leafKeys [] m)) (set (leafKeys [] (rebuild vs X)))"
    by (intro simplify_covers) simp
  moreover from X(2)
  have "covers (set (leafKeys [] (rebuild vs X)))
          (insert (pathBits vs @ r) (set (leafKeys [] (rebuild vs cur))))"
    by (rule covers_rebuild_insert)
  ultimately show ?thesis by (rule covers_trans)
qed

lemma insertLoop_covers:
  "wfVisited vs \<Longrightarrow> wfNode cur \<Longrightarrow> fits vs (bits cur) \<Longrightarrow> fits vs r \<Longrightarrow>
   insertLoop vs cur r = Inr m \<Longrightarrow>
   covers (set (leafKeys [] m)) (insert (pathBits vs @ r) (set (leafKeys [] (rebuild vs cur))))"
proof (induction vs cur r rule: insertLoop.induct)
  case (1 visited r)
  then show ?case by simp
next
  case (2 visited b r)
  show ?case
  proof (cases "prefix r b")
    case True
    have "covers (set (leafKeys (pathBits visited) (Leaf r)))
            (insert (pathBits visited @ r) (set (leafKeys (pathBits visited) (Leaf b))))"
      using True by (simp add: covers_def)
    from covers_rebuild_insert [OF this] True "2.prems"(5) show ?thesis by simp
  next
    case nc: False
    show ?thesis
    proof (cases "prefix b r")
      case True
      have "covers (set (leafKeys (pathBits visited) (Leaf b)))
            (insert (pathBits visited @ r) (set (leafKeys (pathBits visited) (Leaf b))))"
        using True by (simp add: covers_def)
      from covers_rebuild_insert [OF this] True nc "2.prems"(5) show ?thesis by simp
    next
      case False
      with nc "2.prems" show ?thesis by (intro diverge_covers) auto
    qed
  qed
next
  case (3 visited b c0 c1 r)
  show ?case
  proof (cases "prefix r b")
    case True
    have "covers (set (leafKeys (pathBits visited) (Leaf r))) (set (leafKeys (pathBits visited) (Inner b c0 c1)))"
      using True by (intro covers_Leaf) simp
    then have "covers (set (leafKeys (pathBits visited) (Leaf r)))
            (insert (pathBits visited @ r) (set (leafKeys (pathBits visited) (Inner b c0 c1))))"
      by (simp add: covers_def)
    from covers_rebuild_insert [OF this] True "3.prems"(5) show ?thesis by simp
  next
    case nc: False
    show ?thesis
    proof (cases "prefix b r")
      case True
      then obtain r' where r: "r = b @ r'" by (auto simp: prefix_def)
      with nc obtain i rest where r': "r' = i # rest" by (cases r') auto
      have d: "drop (length b) r = i # rest" using r r' by simp
      define V where "V = Visited b i (if i then c0 else c1)"
      have m: "insertLoop (V # visited) (if i then c1 else c0) (i # rest) = Inr m"
        using nc True d "3.prems"(5) by (simp add: V_def)
      have "covers (set (leafKeys [] m))
              (insert (pathBits (V # visited) @ i # rest)
                 (set (leafKeys [] (rebuild (V # visited) (if i then c1 else c0)))))"
        using nc True d "3.prems"(1-4) m unfolding V_def by (intro "3.IH") auto
      moreover have "fill V (if i then c1 else c0) = Inner b c0 c1" by (simp add: V_def)
      moreover have "pathBits (V # visited) @ i # rest = pathBits visited @ r"
        by (simp add: V_def r r')
      ultimately show ?thesis by simp
    next
      case False
      with nc "3.prems" show ?thesis by (intro diverge_covers) auto
    qed
  qed
qed

subsection \<open>Inserting a covered route changes nothing\<close>

lemma leafKeys_shift: "leafKeys p n = map ((@) p) (leafKeys [] n)"
proof (induction n arbitrary: p)
  case (Inner b c0 c1)
  have "leafKeys (p @ b) c0 = map ((@) (p @ b)) (leafKeys [] c0)"
       "leafKeys (p @ b) c1 = map ((@) (p @ b)) (leafKeys [] c1)"
       "leafKeys b c0 = map ((@) b) (leafKeys [] c0)"
       "leafKeys b c1 = map ((@) b) (leafKeys [] c1)"
    by (rule Inner.IH)+
  then show ?case by simp
qed auto

lemma insertLoop_covered:
  "wfNode cur \<Longrightarrow> \<exists>k \<in> set (leafKeys [] cur). prefix k r \<Longrightarrow>
   insertLoop vs cur r = Inr (rebuild vs cur)"
proof (induction vs cur r rule: insertLoop.induct)
  case (1 visited r)
  then show ?case by simp
next
  case (2 visited b r)
  then have "prefix b r" by simp
  then have "prefix r b \<Longrightarrow> r = b" by (simp add: prefix_order.antisym)
  with \<open>prefix b r\<close> show ?case by auto
next
  case (3 visited b c0 c1 r)
  from "3.prems"(2) obtain k where k: "k \<in> set (leafKeys [] (Inner b c0 c1))" "prefix k r"
    by blast
  have "\<exists>j. k \<in> set (leafKeys b (if j then c1 else c0))"
  proof (cases "k \<in> set (leafKeys b c1)")
    case True
    then show ?thesis by (intro exI [of _ True]) simp
  next
    case False
    with k(1) show ?thesis by (intro exI [of _ False]) simp
  qed
  then obtain j where j: "k \<in> set (leafKeys b (if j then c1 else c0))" by blast
  define c where "c = (if j then c1 else c0)"
  have wfc: "wfNode c" "startsWith j (bits c)" using "3.prems"(1) by (auto simp: c_def)
  from j obtain k' where k': "k = b @ k'" "k' \<in> set (leafKeys [] c)"
    unfolding c_def [symmetric] by (subst (asm) leafKeys_shift) auto
  from leafKeys_slot [OF wfc k'(2)] obtain s where s: "k' = j # s" by auto
  from k(2) k'(1) s obtain rest where r: "r = b @ j # s @ rest"
    by (auto simp: prefix_def)
  have nc: "\<not> prefix r b" using r by (auto simp: prefix_def)
  have pb: "prefix b r" using r by simp
  have d: "drop (length b) r = j # s @ rest" using r by simp
  have "\<exists>k \<in> set (leafKeys [] c). prefix k (j # s @ rest)"
    using k'(2) s by (auto intro!: bexI [of _ k'])
  then have "insertLoop (Visited b j (if j then c0 else c1) # visited) (if j then c1 else c0)
           (j # s @ rest) = Inr (rebuild (Visited b j (if j then c0 else c1) # visited) (if j then c1 else c0))"
    using nc pb d wfc unfolding c_def by (intro "3.IH") auto
  with nc pb d show ?case by simp
qed

lemma InsertRoute_covers:
  assumes "wfTrie t" "InsertRoute t r = Inr t'"
  shows "covers (set (leafKeys [] (root t'))) (insert r (set (leafKeys [] (root t))))"
proof (cases "root t = NilNode")
  case True
  with assms(2) show ?thesis by (auto simp: InsertRoute_def covers_def)
next
  case False
  with assms(1) have wf: "wfNode (root t)" by (simp add: wfTrie_def)
  from False assms(2) have "insertLoop [] (root t) r = Inr (root t')"
    by (auto simp: InsertRoute_def split: sum.splits)
  with wf have "covers (set (leafKeys [] (root t')))
                  (insert (pathBits [] @ r) (set (leafKeys [] (rebuild [] (root t)))))"
    by (intro insertLoop_covers) auto
  then show ?thesis by simp
qed

lemma InsertRoute_covered:
  assumes "wfTrie t" "\<exists>k \<in> set (leafKeys [] (root t)). prefix k r"
  shows "InsertRoute t r = Inr t"
proof -
  from assms(2) have nn: "root t \<noteq> NilNode" by auto
  with assms(1) have "wfNode (root t)" by (simp add: wfTrie_def)
  from insertLoop_covered [OF this assms(2), of "[]"] nn show ?thesis
    by (simp add: InsertRoute_def)
qed

lemma covers_covered:
  "covers K' K \<Longrightarrow> \<exists>k \<in> K. prefix k r \<Longrightarrow> \<exists>k \<in> K'. prefix k r"
  unfolding covers_def by (meson prefix_order.trans)

lemma InsertRoutes_covered:
  "wfTrie t \<Longrightarrow> \<exists>k \<in> set (leafKeys [] (root t)). prefix k r \<Longrightarrow> InsertRoutes t ss = Inr t' \<Longrightarrow>
   \<exists>k \<in> set (leafKeys [] (root t')). prefix k r"
proof (induction ss arbitrary: t)
  case Nil
  then show ?case by simp
next
  case (Cons s ss)
  from InsertRoute_wf [OF Cons.prems(1), of s] obtain t1
    where t1: "InsertRoute t s = Inr t1" "wfTrie t1" by blast
  from InsertRoute_covers [OF Cons.prems(1) t1(1)]
  have "covers (set (leafKeys [] (root t1))) (set (leafKeys [] (root t)))"
    by (rule covers_weaken)
  from covers_covered [OF this Cons.prems(2)] t1 Cons.prems(3) show ?case
    by (intro Cons.IH [of t1]) auto
qed

lemma InsertRoutes_append:
  "InsertRoutes t (xs @ ys) =
     (case InsertRoutes t xs of Inl e \<Rightarrow> Inl e | Inr t' \<Rightarrow> InsertRoutes t' ys)"
  by (induction xs arbitrary: t) (auto split: sum.splits)

lemma reinsert_noop:
  assumes "wfTrie t0"
  shows "\<exists>t. InsertRoutes t0 (R # ss) = Inr t \<and> wfTrie t \<and> InsertRoutes t0 (R # ss @ [R]) = Inr t"
proof -
  from InsertRoute_wf [OF assms, of R] obtain t1
    where t1: "InsertRoute t0 R = Inr t1" "wfTrie t1" by blast
  from InsertRoute_covers [OF assms t1(1)]
  have c1: "\<exists>k \<in> set (leafKeys [] (root t1)). prefix k R" by (auto simp: covers_def)
  from InsertRoutes_wf [OF t1(2), of ss] obtain t2
    where t2: "InsertRoutes t1 ss = Inr t2" "wfTrie t2" by blast
  from InsertRoutes_covered [OF t1(2) c1 t2(1)]
  have "InsertRoute t2 R = Inr t2" using t2(2) by (intro InsertRoute_covered)
  with t1 t2 show ?thesis by (simp add: InsertRoutes_append)
qed


subsection \<open>The shortcut and the split\<close>

lemma insertLoopWith_diverge: "insertLoopWith diverge vs cur r = insertLoop vs cur r"
  by (induction vs cur r rule: insertLoop.induct) (auto split: list.splits)

lemma simplify_stops_at_Inner:
  assumes "wfVisited vs" "X = Inner b c0 c1"
  shows "simplifyVisitedSubtries vs X = Inr (rebuild vs X)"
proof (cases vs)
  case Nil
  then show ?thesis by simp
next
  case (Cons v vs')
  obtain vb i other where v: "v = Visited vb i other" by (cases v)
  from assms(1) Cons v have "other \<noteq> NilNode" by auto
  then have "childrenAreCompleteSubtrie (fill v X) = Inr False"
    unfolding v assms(2) by (cases other) auto
  with Cons show ?thesis by simp
qed

lemma diverge_eq_splitThenCollapse:
  assumes "wfVisited vs" "wfNode cur" "fits vs (bits cur)" "fits vs r"
    and "\<not> prefix r (bits cur)" "\<not> prefix (bits cur) r"
  shows "diverge vs cur r = splitThenCollapse vs cur r"
proof -
  define c where "c = commonPrefixLen (bits cur) r"
  from assms(2) have nn: "cur \<noteq> NilNode" by auto
  then obtain leaf where leaf: "isLeaf cur = Inr leaf" by (cases cur) auto
  have fitc: "fits vs (take c (bits cur))"
  proof (cases vs)
    case Nil
    then show ?thesis by simp
  next
    case (Cons v vs')
    obtain b i other where v: "v = Visited b i other" by (cases v)
    from assms(3,4) Cons v have "startsWith i (take c (bits cur))"
      unfolding c_def by (intro startsWith_common) auto
    then show ?thesis using Cons v by simp
  qed
  from split_diverge [OF assms(5,6) nn]
  obtain x as bs where d: "drop c (bits cur) = x # as" "drop c r = (\<not> x) # bs"
    and s: "splitNodeForRoute cur r =
           Inr (if x then Inner (take c (bits cur)) (Leaf (drop c r)) (setBits cur (drop c (bits cur)))
                else Inner (take c (bits cur)) (setBits cur (drop c (bits cur))) (Leaf (drop c r)),
                setBits cur (drop c (bits cur)))"
    unfolding c_def by blast
  define old where "old = setBits cur (drop c (bits cur))"
  define X where "X = (if x then Inner (take c (bits cur)) (Leaf (drop c r)) old
                else Inner (take c (bits cur)) old (Leaf (drop c r)))"
  have s': "splitNodeForRoute cur r = Inr (X, old)" using s by (simp add: X_def old_def)
  have bX: "bits X = take c (bits cur)" by (simp add: X_def)
  have lo: "isLeaf old = Inr leaf" "bits old = x # as"
    using leaf nn d by (cases cur; simp add: old_def)+
  have cle: "c \<le> length (bits cur)" "c \<le> length r"
    unfolding c_def by (rule commonPrefixLen_le)+
  have las: "length as = length (bits cur) - c - 1" "length bs = length r - c - 1"
    using arg_cong [OF d(1), of length] arg_cong [OF d(2), of length] by simp_all
  have "drop c (bits cur) \<noteq> []" "drop c r \<noteq> []" using d by simp_all
  then have clt: "c < length (bits cur)" "c < length r" by simp_all
  show ?thesis
  proof (cases "leaf \<and> length (bits cur) = length r \<and> int c = int (length (bits cur)) - 1")
    case True
    then have c: "c = length (bits cur) - 1" by linarith
    with True las clt have "as = []" "bs = []" by auto
    with lo d True have compl: "childrenAreCompleteSubtrie X = Inr True"
      by (cases old; cases x) (auto simp: X_def)
    have l: "diverge vs cur r = simplifyVisitedSubtries vs (Leaf (take c (bits cur)))"
      using True leaf by (simp add: diverge_def c_def [symmetric] c)
    have "splitThenCollapse vs cur r = simplifyVisitedSubtries vs (Leaf (take c (bits cur)))"
    proof (cases vs)
      case Nil
      with s' compl bX show ?thesis by (simp add: splitThenCollapse_def)
    next
      case (Cons v vs')
      obtain b i other where v: "v = Visited b i other" by (cases v)
      from fitc Cons v obtain rest where rest: "take c (bits cur) = i # rest"
        by (auto simp: startsWith_iff)
      with s' compl bX Cons v show ?thesis
        by (simp add: splitThenCollapse_def del: simplifyVisitedSubtries.simps)
    qed
    with l show ?thesis by simp
  next
    case False
    have ncompl: "childrenAreCompleteSubtrie X = Inr False"
    proof (cases leaf)
      case True
      with False las clt have "as \<noteq> [] \<or> bs \<noteq> []"
        by (cases as; cases bs) auto
      with lo d True show ?thesis
        by (cases old; cases x) (auto simp: X_def)
    next
      case False
      with lo show ?thesis by (cases old; cases x) (auto simp: X_def)
    qed
    obtain xb x0 x1 where Xi: "X = Inner xb x0 x1" by (cases x) (auto simp: X_def)
    have l: "diverge vs cur r = simplifyVisitedSubtries vs X"
    proof (cases vs)
      case Nil
      with False leaf s' show ?thesis
        by (auto simp add: diverge_def c_def [symmetric])
    next
      case (Cons v vs')
      obtain b i other where v: "v = Visited b i other" by (cases v)
      from fitc Cons v obtain rest where rest: "take c (bits cur) = i # rest"
        by (auto simp: startsWith_iff)
      show ?thesis
        using False leaf s' rest Cons v bX
        by (auto simp add: diverge_def c_def [symmetric]
            simp del: simplifyVisitedSubtries.simps)
    qed
    have "splitThenCollapse vs cur r = Inr (rebuild vs X)"
    proof (cases vs)
      case Nil
      with s' ncompl show ?thesis by (simp add: splitThenCollapse_def)
    next
      case (Cons v vs')
      obtain b i other where v: "v = Visited b i other" by (cases v)
      from fitc Cons v obtain rest where rest: "take c (bits cur) = i # rest"
        by (auto simp: startsWith_iff)
      with s' ncompl bX Cons v show ?thesis
        by (simp add: splitThenCollapse_def)
    qed
    with l simplify_stops_at_Inner [OF assms(1) Xi] show ?thesis by simp
  qed
qed

lemma insertLoop_eq_splitThenCollapse:
  "wfVisited vs \<Longrightarrow> wfNode cur \<Longrightarrow> fits vs (bits cur) \<Longrightarrow> fits vs r \<Longrightarrow>
   insertLoop vs cur r = insertLoopWith splitThenCollapse vs cur r"
proof (induction vs cur r rule: insertLoop.induct)
  case (1 visited r)
  then show ?case by simp
next
  case (2 visited b r)
  from diverge_eq_splitThenCollapse [OF "2.prems"] show ?case by simp
next
  case (3 visited b c0 c1 r)
  show ?case
  proof (cases "\<not> prefix r b \<and> prefix b r")
    case True
    then obtain r' where r: "r = b @ r'" by (auto simp: prefix_def)
    with True obtain i rest where r': "r' = i # rest" by (cases r') auto
    have d: "drop (length b) r = i # rest" using r r' by simp
    have "insertLoop (Visited b i (if i then c0 else c1) # visited) (if i then c1 else c0) (i # rest)
        = insertLoopWith splitThenCollapse (Visited b i (if i then c0 else c1) # visited)
            (if i then c1 else c0) (i # rest)"
      using True d "3.prems" by (intro "3.IH") auto
    with True d show ?thesis by simp
  next
    case False
    with diverge_eq_splitThenCollapse [OF "3.prems"] show ?thesis by auto
  qed
qed

subsection \<open>The label of the root\<close>

lemma leafKeys_nonempty: "wfNode n \<Longrightarrow> leafKeys p n \<noteq> []"
  by (induction n arbitrary: p) auto

lemma root_label_empty_iff:
  assumes "wfNode n"
  shows "bits n = [] \<longleftrightarrow> \<not> (\<exists>i. \<forall>k \<in> set (leafKeys [] n). startsWith i k)"
proof (cases "bits n")
  case Nil
  have "\<exists>k \<in> set (leafKeys [] n). \<not> startsWith i k" for i
  proof (cases n)
    case NilNode
    with assms show ?thesis by simp
  next
    case (Leaf b)
    with Nil show ?thesis by simp
  next
    case (Inner b c0 c1)
    define c where "c = (if i then c0 else c1)"
    from assms Inner have wfc: "wfNode c" "startsWith (\<not> i) (bits c)" by (auto simp: c_def)
    from leafKeys_nonempty [OF wfc(1), of "[]"] obtain k where k: "k \<in> set (leafKeys [] c)"
      by (cases "leafKeys [] c") auto
    from leafKeys_slot [OF wfc k] have "\<not> startsWith i k" by auto
    moreover from k Inner Nil have "k \<in> set (leafKeys [] n)" by (auto simp: c_def split: if_splits)
    ultimately show ?thesis by blast
  qed
  with Nil show ?thesis by blast
next
  case (Cons i bs)
  have "startsWith i k" if "k \<in> set (leafKeys [] n)" for k
    using leafKeys_prefix [OF assms that] Cons by (auto simp: prefix_def)
  with Cons show ?thesis by auto
qed

lemma InsertRoutes_not_Nil:
  assumes "wfTrie t" "rs \<noteq> []" "InsertRoutes t rs = Inr t'"
  shows "root t' \<noteq> NilNode"
proof -
  from assms(2) obtain xs x where rs: "rs = xs @ [x]" by (cases rs rule: rev_cases) auto
  from InsertRoutes_wf [OF assms(1), of xs] obtain t1
    where t1: "InsertRoutes t xs = Inr t1" "wfTrie t1" by blast
  from InsertRoute_wf [OF t1(2), of x] obtain t2
    where t2: "InsertRoute t1 x = Inr t2" "root t2 \<noteq> NilNode" by blast
  with assms(3) rs t1 show ?thesis by (simp add: InsertRoutes_append)
qed


subsection \<open>The messages of the errors\<close>






section \<open>The claims\<close>

text \<open>
  C1 at the routes 00, 010, 01. The third insertion meets the leaf \<open>10\<close> below the root
  \<open>0\<close>, truncates it to \<open>1\<close> and returns without simplifying the visited root, so
  \<open>Contents\<close> is 00, 01, the two halves of the route 0.
\<close>

theorem covering_insert_leaves_both_halves:
  "InsertRoutes NewRSTrie [[False, False], [False, True, False]] =
     Inr (RSTrie (Inner [False] (Leaf [False]) (Leaf [True, False]))) \<and>
   InsertRoute (RSTrie (Inner [False] (Leaf [False]) (Leaf [True, False]))) [False, True] =
     Inr (RSTrie (Inner [False] (Leaf [False]) (Leaf [True]))) \<and>
   Contents (RSTrie (Inner [False] (Leaf [False]) (Leaf [True]))) =
     Inr [[False] @ [False], [False] @ [True]]"
  by (simp add: InsertRoute_def NewRSTrie_def diverge_def splitNodeForRoute_def Contents_def
      HasPrefix_iff Let_def)

text \<open>
  C2 at the routes 00, 01, 010. Inserted as 00, 010, 01 they give the keys 00, 01;
  inserted as 00, 01, 010 they give the key 0.
\<close>

theorem contents_depends_on_order:
  "InsertRoutes NewRSTrie [[False, False], [False, True, False], [False, True]] =
     Inr (RSTrie (Inner [False] (Leaf [False]) (Leaf [True]))) \<and>
   Contents (RSTrie (Inner [False] (Leaf [False]) (Leaf [True]))) =
     Inr [[False, False], [False, True]] \<and>
   InsertRoutes NewRSTrie [[False, False], [False, True], [False, True, False]] =
     Inr (RSTrie (Leaf [False])) \<and>
   Contents (RSTrie (Leaf [False])) = Inr [[False]] \<and>
   set [[False, False], [False, True]] \<noteq> set [[False]]"
  by (simp add: InsertRoute_def NewRSTrie_def diverge_def splitNodeForRoute_def Contents_def
      HasPrefix_iff Let_def)

text \<open>
  C3. In every trie state reached from the empty trie by calls of \<open>InsertRoute\<close> with
  non-empty bit sequences, no call panics, every node has either no child or exactly two
  children, and each child sits in the slot indexed by the first bit of its own label.
\<close>

theorem reachable_two_children_in_slots:
  "[] \<notin> set rs \<Longrightarrow> \<exists>t. InsertRoutes NewRSTrie rs = Inr t \<and> twoChildrenInSlots (root t)"
  using reachable_wf [of rs] wfTrie_twoChildrenInSlots by blast

theorem reachable_two_children_in_slots_witness:
  "[] \<notin> set [[False, False], [False, True, False], [True]] \<and>
   (\<exists>t. InsertRoutes NewRSTrie [[False, False], [False, True, False], [True]] = Inr t \<and>
        twoChildrenInSlots (root t))"
  using reachable_two_children_in_slots [of "[[False, False], [False, True, False], [True]]"]
  by simp

text \<open>
  C4, as stated, fails: the label of the root is empty as soon as the stored routes share
  no leading bit, both after the single-bit shortcut and after a split.
\<close>

theorem root_label_empty_counterexample:
  "InsertRoutes NewRSTrie [[False], [True]] = Inr (RSTrie (Leaf [])) \<and>
   InsertRoutes NewRSTrie [[False, False], [True, True]] =
     Inr (RSTrie (Inner [] (Leaf [False, False]) (Leaf [True, True]))) \<and>
   [] \<in> set (allLabels (Inner [] (Leaf [False, False]) (Leaf [True, True])))"
  by (simp add: InsertRoute_def NewRSTrie_def diverge_def splitNodeForRoute_def
      HasPrefix_iff Let_def)

text \<open>
  C4, amended. In every trie state reached from the empty trie by calls of \<open>InsertRoute\<close>
  with non-empty bit sequences, every node other than the root has a non-empty label; and
  once a route has been inserted, the trie has a root whose label is empty exactly when
  the keys that \<open>Contents\<close> returns share no leading bit.
\<close>

theorem reachable_labels_empty_only_at_root:
  "[] \<notin> set rs \<Longrightarrow>
   \<exists>t ks. InsertRoutes NewRSTrie rs = Inr t \<and> Contents t = Inr ks \<and>
          [] \<notin> set (childLabels (root t)) \<and>
          (rs \<noteq> [] \<longrightarrow>
             root t \<noteq> NilNode \<and>
             (bits (root t) = [] \<longleftrightarrow> \<not> (\<exists>i. \<forall>k \<in> set ks. startsWith i k)))"
proof -
  from reachable_wf [of rs] obtain t where t: "InsertRoutes NewRSTrie rs = Inr t" "wfTrie t"
    by blast
  from t(2) have cl: "[] \<notin> set (childLabels (root t))"
    using wfNode_childLabels [of "root t"] by (auto simp: wfTrie_def)
  have "root t \<noteq> NilNode \<and>
        (bits (root t) = [] \<longleftrightarrow> \<not> (\<exists>i. \<forall>k \<in> set (leafKeys [] (root t)). startsWith i k))"
    if "rs \<noteq> []"
  proof -
    have nn: "root t \<noteq> NilNode"
      using that t(1) by (intro InsertRoutes_not_Nil [of NewRSTrie rs]) (auto simp: wfTrie_def NewRSTrie_def)
    with t(2) have "wfNode (root t)" by (simp add: wfTrie_def)
    from root_label_empty_iff [OF this] nn show ?thesis by blast
  qed
  with t(1) cl Contents_keys [OF t(2)] show ?thesis by blast
qed

theorem reachable_labels_empty_only_at_root_witness:
  "([] \<notin> set [[False, False], [True, False, True], [True, True]] \<and>
    (\<exists>t ks. InsertRoutes NewRSTrie [[False, False], [True, False, True], [True, True]] = Inr t \<and>
       Contents t = Inr ks \<and> [] \<notin> set (childLabels (root t)) \<and>
       ([[False, False], [True, False, True], [True, True]] \<noteq> [] \<longrightarrow>
          root t \<noteq> NilNode \<and>
          (bits (root t) = [] \<longleftrightarrow> \<not> (\<exists>i. \<forall>k \<in> set ks. startsWith i k))))) \<and>
   ([] \<notin> set [[False, False], [False, True, False]] \<and>
    (\<exists>t ks. InsertRoutes NewRSTrie [[False, False], [False, True, False]] = Inr t \<and>
       Contents t = Inr ks \<and> [] \<notin> set (childLabels (root t)) \<and>
       ([[False, False], [False, True, False]] \<noteq> [] \<longrightarrow>
          root t \<noteq> NilNode \<and>
          (bits (root t) = [] \<longleftrightarrow> \<not> (\<exists>i. \<forall>k \<in> set ks. startsWith i k)))))"
  using reachable_labels_empty_only_at_root [of "[[False, False], [True, False, True], [True, True]]"]
    reachable_labels_empty_only_at_root [of "[[False, False], [False, True, False]]"]
  by simp

text \<open>
  C5. In every trie state reached from the empty trie by calls of \<open>InsertRoute\<close> with
  non-empty bit sequences, \<open>Contents\<close> returns keys without repetition, and of two
  distinct keys neither is a prefix of the other.
\<close>

theorem reachable_contents_prefix_free:
  "[] \<notin> set rs \<Longrightarrow>
   \<exists>t ks. InsertRoutes NewRSTrie rs = Inr t \<and> Contents t = Inr ks \<and> distinct ks \<and>
          (\<forall>k1 \<in> set ks. \<forall>k2 \<in> set ks. k1 \<noteq> k2 \<longrightarrow> \<not> prefix k1 k2 \<and> \<not> prefix k2 k1)"
proof -
  from reachable_wf [of rs] obtain t where t: "InsertRoutes NewRSTrie rs = Inr t" "wfTrie t"
    by blast
  show ?thesis
  proof (cases "root t = NilNode")
    case True
    with t show ?thesis by (auto simp: Contents_def)
  next
    case False
    with t have wf: "wfNode (root t)" by (simp add: wfTrie_def)
    from leafKeys_prefix_free [OF wf] leafKeys_distinct [OF wf] Contents_keys [OF t(2)] t(1)
    show ?thesis by blast
  qed
qed

theorem reachable_contents_prefix_free_witness:
  "[] \<notin> set [[False, False], [False, True, False], [True]] \<and>
   (\<exists>t ks. InsertRoutes NewRSTrie [[False, False], [False, True, False], [True]] = Inr t \<and>
      Contents t = Inr ks \<and> distinct ks \<and>
      (\<forall>k1 \<in> set ks. \<forall>k2 \<in> set ks. k1 \<noteq> k2 \<longrightarrow> \<not> prefix k1 k2 \<and> \<not> prefix k2 k1))"
  using reachable_contents_prefix_free [of "[[False, False], [False, True, False], [True]]"]
  by simp

text \<open>
  C6. From any trie state reached from the empty trie by calls of \<open>InsertRoute\<close> with
  non-empty bit sequences \<open>rs\<close>, inserting a non-empty route \<open>R\<close>, then any non-empty
  routes \<open>ss\<close> (none for two consecutive insertions), and then \<open>R\<close> again ends in the
  same trie, hence with the same \<open>Contents\<close>, as without the second insertion of \<open>R\<close>.
\<close>

theorem insert_again_same_contents:
  "[] \<notin> set rs \<Longrightarrow> R \<noteq> [] \<Longrightarrow> [] \<notin> set ss \<Longrightarrow>
   \<exists>t ks. InsertRoutes NewRSTrie (rs @ R # ss) = Inr t \<and>
          InsertRoutes NewRSTrie (rs @ R # ss @ [R]) = Inr t \<and> Contents t = Inr ks"
proof -
  from reachable_wf [of rs] obtain t0 where t0: "InsertRoutes NewRSTrie rs = Inr t0" "wfTrie t0"
    by blast
  from reinsert_noop [OF t0(2), of R ss] obtain t
    where t: "InsertRoutes t0 (R # ss) = Inr t" "wfTrie t" "InsertRoutes t0 (R # ss @ [R]) = Inr t"
    by blast
  from t0(1) t(1) have "InsertRoutes NewRSTrie (rs @ R # ss) = Inr t"
    by (simp add: InsertRoutes_append)
  moreover from t0(1) t(3) have "InsertRoutes NewRSTrie (rs @ R # ss @ [R]) = Inr t"
    by (simp add: InsertRoutes_append)
  moreover note Contents_keys [OF t(2)]
  ultimately show ?thesis by blast
qed

theorem insert_again_same_contents_witness:
  "[] \<notin> set [[False, False], [True, False]] \<and> [False, True, True] \<noteq> [] \<and>
   [] \<notin> set [[False, True, False]] \<and>
   (\<exists>t ks. InsertRoutes NewRSTrie ([[False, False], [True, False]] @ [False, True, True] # [[False, True, False]]) = Inr t \<and>
          InsertRoutes NewRSTrie ([[False, False], [True, False]] @ [False, True, True] # [[False, True, False]] @ [[False, True, True]]) = Inr t \<and>
          Contents t = Inr ks)"
  using insert_again_same_contents [of "[[False, False], [True, False]]" "[False, True, True]"
      "[[False, True, False]]"]
  by simp

text \<open>
  C7. When a route \<open>R1\<close> is inserted into the empty trie and then a broader route \<open>R2\<close>
  that is a strict prefix of \<open>R1\<close>, \<open>Contents\<close> afterwards contains \<open>R2\<close> and does not
  contain \<open>R1\<close>.
\<close>

theorem absorb_narrower_route:
  "strict_prefix R2 R1 \<Longrightarrow>
   \<exists>t ks. InsertRoutes NewRSTrie [R1, R2] = Inr t \<and> Contents t = Inr ks \<and>
          R2 \<in> set ks \<and> R1 \<notin> set ks"
  by (auto simp: InsertRoute_def NewRSTrie_def Contents_def strict_prefix_def)

theorem absorb_narrower_route_witness:
  "strict_prefix [True, False] [True, False, True, True] \<and>
   (\<exists>t ks. InsertRoutes NewRSTrie [[True, False, True, True], [True, False]] = Inr t \<and>
          Contents t = Inr ks \<and> [True, False] \<in> set ks \<and> [True, False, True, True] \<notin> set ks)"
  using absorb_narrower_route [of "[True, False]" "[True, False, True, True]"]
  by simp

text \<open>
  C8, as stated, fails. From the trie that holds the route 00, inserting 01 with the
  shortcut gives the single key 0; the general split followed by
  \<open>simplifyVisitedSubtries\<close> over the visited stack leaves the new node with its two
  single-bit leaves, and \<open>Contents\<close> is 00, 01.
\<close>

theorem shortcut_general_split_counterexample:
  "InsertRoutes NewRSTrie [[False, False]] = Inr (RSTrie (Leaf [False, False])) \<and>
   InsertRoute (RSTrie (Leaf [False, False])) [False, True] = Inr (RSTrie (Leaf [False])) \<and>
   Contents (RSTrie (Leaf [False])) = Inr [[False]] \<and>
   InsertRouteWith splitThenSimplify (RSTrie (Leaf [False, False])) [False, True] =
     Inr (RSTrie (Inner [False] (Leaf [False]) (Leaf [True]))) \<and>
   Contents (RSTrie (Inner [False] (Leaf [False]) (Leaf [True]))) =
     Inr [[False, False], [False, True]]"
  by (simp add: InsertRoute_def InsertRouteWith_def NewRSTrie_def diverge_def
      splitThenSimplify_def splitNodeForRoute_def Contents_def HasPrefix_iff Let_def)

text \<open>
  C8, amended. In every trie state reached from the empty trie by calls of
  \<open>InsertRoute\<close> with non-empty bit sequences and for every non-empty route,
  \<open>InsertRoute\<close> with its shortcut and the insertion that always splits with
  \<open>splitNodeForRoute\<close> and then runs a collapse pass that starts at the node the split
  has built end in the same trie, hence with the same \<open>Contents\<close>.
\<close>

theorem shortcut_equals_split_then_collapse:
  "[] \<notin> set rs \<Longrightarrow> r \<noteq> [] \<Longrightarrow>
   \<exists>t t' ks. InsertRoutes NewRSTrie rs = Inr t \<and> InsertRoute t r = Inr t' \<and>
             InsertRouteWith splitThenCollapse t r = Inr t' \<and> Contents t' = Inr ks"
proof -
  from reachable_wf [of rs] obtain t where t: "InsertRoutes NewRSTrie rs = Inr t" "wfTrie t"
    by blast
  from InsertRoute_wf [OF t(2), of r] obtain t'
    where t': "InsertRoute t r = Inr t'" "wfTrie t'" by blast
  have "InsertRouteWith splitThenCollapse t r = InsertRoute t r"
  proof (cases "root t = NilNode")
    case True
    then show ?thesis by (simp add: InsertRoute_def InsertRouteWith_def)
  next
    case False
    with t(2) have "wfNode (root t)" by (simp add: wfTrie_def)
    then have "insertLoop [] (root t) r = insertLoopWith splitThenCollapse [] (root t) r"
      by (intro insertLoop_eq_splitThenCollapse) auto
    then show ?thesis by (simp add: InsertRoute_def InsertRouteWith_def)
  qed
  with t t' Contents_keys [OF t'(2)] show ?thesis by auto
qed

theorem shortcut_equals_split_then_collapse_witness:
  "[] \<notin> set [[True, False, False], [False], [True, True]] \<and> [True, False, True] \<noteq> [] \<and>
   (\<exists>t t' ks. InsertRoutes NewRSTrie [[True, False, False], [False], [True, True]] = Inr t \<and>
      InsertRoute t [True, False, True] = Inr t' \<and>
      InsertRouteWith splitThenCollapse t [True, False, True] = Inr t' \<and> Contents t' = Inr ks)"
  using shortcut_equals_split_then_collapse
    [of "[[True, False, False], [False], [True, True]]" "[True, False, True]"]
  by simp



text \<open>
  C10. \<open>Contents\<close> of the empty trie is the empty sequence. In every trie state reached
  from the empty trie by calls of \<open>InsertRoute\<close> with non-empty bit sequences,
  \<open>Contents\<close> returns the keys of the leaves in depth-first pre-order with the child in
  slot 0 before the child in slot 1 (the list \<open>leafKeys\<close>), and this list is strictly
  increasing in the lexicographic order of bit strings with 0 before 1.
\<close>

theorem contents_preorder_increasing:
  "Contents NewRSTrie = Inr [] \<and>
   ([] \<notin> set rs \<longrightarrow>
    (\<exists>t. InsertRoutes NewRSTrie rs = Inr t \<and> Contents t = Inr (leafKeys [] (root t)) \<and>
         sorted_wrt (<) (leafKeys [] (root t))))"
proof -
  from reachable_wf [of rs] obtain t where t: "InsertRoutes NewRSTrie rs = Inr t" "wfTrie t"
    by blast
  have "sorted_wrt (<) (leafKeys [] (root t))"
    using t(2) leafKeys_sorted [of "root t" "[]"] by (auto simp: wfTrie_def)
  with t Contents_keys [OF t(2)] show ?thesis
    by (auto simp: Contents_def NewRSTrie_def)
qed

theorem contents_preorder_increasing_witness:
  "Contents NewRSTrie = Inr [] \<and>
   [] \<notin> set [[True], [False, True, False], [False, False]] \<and>
   (\<exists>t. InsertRoutes NewRSTrie [[True], [False, True, False], [False, False]] = Inr t \<and>
        Contents t = Inr (leafKeys [] (root t)) \<and> sorted_wrt (<) (leafKeys [] (root t)))"
  using contents_preorder_increasing [of "[[True], [False, True, False], [False, False]]"]
  by simp

end
